theory Spec2Isabelle
  imports Main
begin

section \<open>The LRU dictionary of \<^verbatim>\<open>lru_dict.py\<close>\<close>

text \<open>
  The class \<^verbatim>\<open>lru_dict\<close> keeps three attributes: \<^verbatim>\<open>__size\<close> (the capacity),
  \<^verbatim>\<open>_stack\<close> (a Python list of keys, least recently used first) and \<^verbatim>\<open>_data\<close>
  (a Python dict from keys to values). Every method is embedded as a function that takes
  the object's state and returns the outcome of the call together with the state the
  object is left in. An exception is the left injection of the outcome; the state returned
  beside it is the state at the moment of the raise, so a mutation made before a raise
  stays visible.
\<close>

subsection \<open>Exceptions and the state of an object\<close>

datatype error = KeyError | ValueError | IndexError

record ('k, 'v) lru_dict =
  size_lru :: int
  stack :: "'k list"
  data :: "'k \<rightharpoonup> 'v"

type_synonym ('r, 'k, 'v) outcome = "(error + 'r) \<times> ('k, 'v) lru_dict"

subsection \<open>The list primitives the methods call\<close>

text \<open>\<^verbatim>\<open>xs.index(k)\<close>: the position of the first element equal to \<^verbatim>\<open>k\<close>, ValueError if
  there is none.\<close>

fun list_index :: "'a list \<Rightarrow> 'a \<Rightarrow> error + nat" where
  "list_index [] k = Inl ValueError"
| "list_index (x # xs) k =
     (if x = k then Inr 0
      else (case list_index xs k of Inl e \<Rightarrow> Inl e | Inr i \<Rightarrow> Inr (Suc i)))"

text \<open>\<^verbatim>\<open>xs.pop(i)\<close> for \<^verbatim>\<open>i \<ge> 0\<close>: the element at \<^verbatim>\<open>i\<close> and the list without it,
  IndexError out of range.\<close>

definition list_pop :: "'a list \<Rightarrow> nat \<Rightarrow> error + ('a \<times> 'a list)" where
  "list_pop xs i =
     (if i < length xs then Inr (xs ! i, take i xs @ drop (Suc i) xs) else Inl IndexError)"

text \<open>The slices \<^verbatim>\<open>xs[:j]\<close> and \<^verbatim>\<open>xs[j:]\<close>: a negative bound counts from the end, and
  every bound is clamped to the list.\<close>

definition slice_bound :: "'a list \<Rightarrow> int \<Rightarrow> nat" where
  "slice_bound xs j = (if j < 0 then nat (max 0 (int (length xs) + j)) else nat j)"

definition slice_to :: "'a list \<Rightarrow> int \<Rightarrow> 'a list" where
  "slice_to xs j = take (slice_bound xs j) xs"

definition slice_from :: "'a list \<Rightarrow> int \<Rightarrow> 'a list" where
  "slice_from xs j = drop (slice_bound xs j) xs"

subsection \<open>Accessors\<close>

definition len :: "('k, 'v) lru_dict \<Rightarrow> int" where
  "len s = int (length (stack s))"

definition filled :: "('k, 'v) lru_dict \<Rightarrow> int" where
  "filled s = len s"

definition contains :: "('k, 'v) lru_dict \<Rightarrow> 'k \<Rightarrow> bool" where
  "contains s k \<longleftrightarrow> data s k \<noteq> None"

text \<open>\<^verbatim>\<open>self._stack[0]\<close> and \<^verbatim>\<open>self._stack[-1]\<close> raise IndexError on the empty list.\<close>

definition lru :: "('k, 'v) lru_dict \<Rightarrow> error + 'k" where
  "lru s = (case stack s of [] \<Rightarrow> Inl IndexError | k # _ \<Rightarrow> Inr k)"

definition mru :: "('k, 'v) lru_dict \<Rightarrow> error + 'k" where
  "mru s = (case stack s of [] \<Rightarrow> Inl IndexError | _ # _ \<Rightarrow> Inr (last (stack s)))"

subsection \<open>peek, \_make\_key\_newest, \_\_getitem\_\_, \_\_delitem\_\_, \_\_setitem\_\_\<close>

definition peek :: "('k, 'v) lru_dict \<Rightarrow> 'k \<Rightarrow> ('v, 'k, 'v) outcome" where
  "peek s key = (case data s key of None \<Rightarrow> (Inl KeyError, s) | Some v \<Rightarrow> (Inr v, s))"

text \<open>The ValueError of \<^verbatim>\<open>index\<close> is caught and raised again as KeyError; otherwise the
  key is popped from its position and appended.\<close>

definition make_key_newest :: "('k, 'v) lru_dict \<Rightarrow> 'k \<Rightarrow> (unit, 'k, 'v) outcome" where
  "make_key_newest s key =
     (case list_index (stack s) key of
        Inl e \<Rightarrow> (Inl KeyError, s)
      | Inr i \<Rightarrow>
          (case list_pop (stack s) i of
             Inl e \<Rightarrow> (Inl e, s)
           | Inr (x, rest) \<Rightarrow> (Inr (), s\<lparr>stack := rest @ [x]\<rparr>)))"

definition getitem :: "('k, 'v) lru_dict \<Rightarrow> 'k \<Rightarrow> ('v, 'k, 'v) outcome" where
  "getitem s key =
     (case make_key_newest s key of
        (Inl e, s1) \<Rightarrow> (Inl e, s1)
      | (Inr _, s1) \<Rightarrow>
          (case data s1 key of None \<Rightarrow> (Inl KeyError, s1) | Some v \<Rightarrow> (Inr v, s1)))"

text \<open>\<^verbatim>\<open>del self._data[key]\<close> comes first and raises KeyError; the ValueError of
  \<^verbatim>\<open>index\<close> is not caught here.\<close>

definition delitem :: "('k, 'v) lru_dict \<Rightarrow> 'k \<Rightarrow> (unit, 'k, 'v) outcome" where
  "delitem s key =
     (case data s key of
        None \<Rightarrow> (Inl KeyError, s)
      | Some _ \<Rightarrow>
          (let s1 = s\<lparr>data := (data s)(key := None)\<rparr> in
           case list_index (stack s1) key of
             Inl e \<Rightarrow> (Inl e, s1)
           | Inr i \<Rightarrow>
               (case list_pop (stack s1) i of
                  Inl e \<Rightarrow> (Inl e, s1)
                | Inr (x, rest) \<Rightarrow> (Inr (), s1\<lparr>stack := rest\<rparr>))))"

definition setitem :: "('k, 'v) lru_dict \<Rightarrow> 'k \<Rightarrow> 'v \<Rightarrow> (unit, 'k, 'v) outcome" where
  "setitem s key val =
     (case (if contains s key then make_key_newest s key
            else (Inr (), s\<lparr>stack := stack s @ [key]\<rparr>)) of
        (Inl e, s1) \<Rightarrow> (Inl e, s1)
      | (Inr _, s1) \<Rightarrow>
          (let s2 = s1\<lparr>data := (data s1)(key \<mapsto> val)\<rparr> in
           if len s2 > size_lru s2 then
             (case stack s2 of
                [] \<Rightarrow> (Inl IndexError, s2)
              | k0 # _ \<Rightarrow> delitem s2 k0)
           else (Inr (), s2)))"

subsection \<open>resize\<close>

text \<open>The loop \<^verbatim>\<open>for key in ...: del self._data[key]\<close>; it stops at the first key that
  the dict does not hold, with the deletions made so far.\<close>

fun del_keys :: "'k list \<Rightarrow> ('k \<rightharpoonup> 'v) \<Rightarrow> error option \<times> ('k \<rightharpoonup> 'v)" where
  "del_keys [] d = (None, d)"
| "del_keys (k # ks) d =
     (case d k of None \<Rightarrow> (Some KeyError, d) | Some _ \<Rightarrow> del_keys ks (d(k := None)))"

definition resize :: "('k, 'v) lru_dict \<Rightarrow> int \<Rightarrow> (unit, 'k, 'v) outcome" where
  "resize s new_size =
     (if new_size < 1 then (Inl ValueError, s)
      else
        (let s1 = s\<lparr>size_lru := new_size\<rparr> in
         if len s1 > size_lru s1 then
           (case del_keys (slice_to (stack s1) (- size_lru s1)) (data s1) of
              (Some e, d) \<Rightarrow> (Inl e, s1\<lparr>data := d\<rparr>)
            | (None, d) \<Rightarrow>
                (Inr (), s1\<lparr>data := d, stack := slice_from (stack s1) (- size_lru s1)\<rparr>))
         else (Inr (), s1)))"

subsection \<open>Construction\<close>

text \<open>\<^verbatim>\<open>MutableMapping.update\<close> assigns the pairs of \<^verbatim>\<open>existing\<close> one by one through
  \<^verbatim>\<open>__setitem__\<close>, in the order \<^verbatim>\<open>existing\<close> is iterated in; the pairs are given here
  in that order.\<close>

fun update :: "('k, 'v) lru_dict \<Rightarrow> ('k \<times> 'v) list \<Rightarrow> (unit, 'k, 'v) outcome" where
  "update s [] = (Inr (), s)"
| "update s ((k, v) # kvs) =
     (case setitem s k v of
        (Inl e, s1) \<Rightarrow> (Inl e, s1)
      | (Inr _, s1) \<Rightarrow> update s1 kvs)"

definition init :: "int \<Rightarrow> ('k \<times> 'v) list option \<Rightarrow> error + ('k, 'v) lru_dict" where
  "init size0 existing =
     (if size0 < 1 then Inl ValueError
      else
        (let s = \<lparr>size_lru = size0, stack = [], data = Map.empty\<rparr> in
         case existing of
           None \<Rightarrow> Inr s
         | Some kvs \<Rightarrow>
             (case update s kvs of (Inl e, _) \<Rightarrow> Inl e | (Inr _, s1) \<Rightarrow> Inr s1)))"

subsection \<open>Views and equality\<close>

text \<open>
  \<^verbatim>\<open>keys\<close>, \<^verbatim>\<open>values\<close> and \<^verbatim>\<open>items\<close> wrap the object in \<^verbatim>\<open>ProxiedPeek\<close>, whose
  \<^verbatim>\<open>__iter__\<close> is the iterator of \<^verbatim>\<open>_stack\<close> and whose \<^verbatim>\<open>__getitem__\<close> is
  \<^verbatim>\<open>peek\<close>. The views of \<^verbatim>\<open>collections\<close> iterate the mapping and look every key
  up in it. A list iterator holds a position in the live list: every step reads the list
  as it is then. The functions below run a view to its end from position \<^verbatim>\<open>i\<close>.
\<close>

function keys_from :: "('k, 'v) lru_dict \<Rightarrow> nat \<Rightarrow> ('k list, 'k, 'v) outcome" where
  "keys_from s i =
     (if i < length (stack s) then
        (case keys_from s (Suc i) of
           (Inl e, s2) \<Rightarrow> (Inl e, s2)
         | (Inr ks, s2) \<Rightarrow> (Inr (stack s ! i # ks), s2))
      else (Inr [], s))"
  by pat_completeness auto
termination
  by (relation "measure (\<lambda>(s, i). length (stack s) - i)") auto

function values_from :: "('k, 'v) lru_dict \<Rightarrow> nat \<Rightarrow> ('v list, 'k, 'v) outcome" where
  "values_from s i =
     (if i < length (stack s) then
        (case peek s (stack s ! i) of
           (Inl e, s1) \<Rightarrow> (Inl e, s1)
         | (Inr v, s1) \<Rightarrow>
             (case values_from s1 (Suc i) of
                (Inl e, s2) \<Rightarrow> (Inl e, s2)
              | (Inr vs, s2) \<Rightarrow> (Inr (v # vs), s2)))
      else (Inr [], s))"
  by pat_completeness auto
termination
  by (relation "measure (\<lambda>(s, i). length (stack s) - i)")
     (auto simp: peek_def split: option.splits)

function items_from :: "('k, 'v) lru_dict \<Rightarrow> nat \<Rightarrow> (('k \<times> 'v) list, 'k, 'v) outcome" where
  "items_from s i =
     (if i < length (stack s) then
        (case peek s (stack s ! i) of
           (Inl e, s1) \<Rightarrow> (Inl e, s1)
         | (Inr v, s1) \<Rightarrow>
             (case items_from s1 (Suc i) of
                (Inl e, s2) \<Rightarrow> (Inl e, s2)
              | (Inr kvs, s2) \<Rightarrow> (Inr ((stack s ! i, v) # kvs), s2)))
      else (Inr [], s))"
  by pat_completeness auto
termination
  by (relation "measure (\<lambda>(s, i). length (stack s) - i)")
     (auto simp: peek_def split: option.splits)

declare keys_from.simps [simp del] values_from.simps [simp del] items_from.simps [simp del]

definition keys :: "('k, 'v) lru_dict \<Rightarrow> ('k list, 'k, 'v) outcome" where
  "keys s = keys_from s 0"

definition values_lru :: "('k, 'v) lru_dict \<Rightarrow> ('v list, 'k, 'v) outcome" where
  "values_lru s = values_from s 0"

definition items :: "('k, 'v) lru_dict \<Rightarrow> (('k \<times> 'v) list, 'k, 'v) outcome" where
  "items s = items_from s 0"

text \<open>
  \<^verbatim>\<open>__eq__\<close> on two \<^verbatim>\<open>lru_dict\<close>s: \<^verbatim>\<open>and\<close> stops at the first false conjunct, and
  \<^verbatim>\<open>all\<close> over \<^verbatim>\<open>zip\<close> draws one pair from \<^verbatim>\<open>self.items()\<close>, then one from
  \<^verbatim>\<open>other.items()\<close>, and stops at the first pair of unequal items or when either view
  ends. Both views advance together, so one position serves both.
\<close>

function all_zip_items :: "('k, 'v) lru_dict \<Rightarrow> ('k, 'v) lru_dict \<Rightarrow> nat \<Rightarrow> error + bool" where
  "all_zip_items s t i =
     (if i < length (stack s) then
        (case fst (peek s (stack s ! i)) of
           Inl e \<Rightarrow> Inl e
         | Inr v \<Rightarrow>
             (if i < length (stack t) then
                (case fst (peek t (stack t ! i)) of
                   Inl e \<Rightarrow> Inl e
                 | Inr w \<Rightarrow>
                     (if (stack s ! i, v) = (stack t ! i, w) then all_zip_items s t (Suc i)
                      else Inr False))
              else Inr True))
      else Inr True)"
  by pat_completeness auto
termination
  by (relation "measure (\<lambda>(s, t, i). length (stack s) - i)") auto

declare all_zip_items.simps [simp del]

definition eq :: "('k, 'v) lru_dict \<Rightarrow> ('k, 'v) lru_dict \<Rightarrow> error + bool" where
  "eq s t =
     (if size_lru s = size_lru t then
        (if filled s = filled t then all_zip_items s t 0 else Inr False)
      else Inr False)"

definition ne :: "('k, 'v) lru_dict \<Rightarrow> ('k, 'v) lru_dict \<Rightarrow> error + bool" where
  "ne s t = (case eq s t of Inl e \<Rightarrow> Inl e | Inr b \<Rightarrow> Inr (\<not> b))"

subsection \<open>The data-model invariant and runs of calls\<close>

text \<open>The stack holds every key of the dict exactly once and nothing else, the number of
  entries is at most the capacity, and the capacity is at least one.\<close>

definition invar :: "('k, 'v) lru_dict \<Rightarrow> bool" where
  "invar s \<longleftrightarrow>
     distinct (stack s) \<and> set (stack s) = dom (data s) \<and> len s \<le> size_lru s \<and> 1 \<le> size_lru s"

text \<open>A caller's call on an existing object. \<^verbatim>\<open>exec\<close> gives the state the object is in
  after the call, whether the call returned or raised (the caller may catch the exception
  and go on using the object); \<^verbatim>\<open>__contains__\<close> only reads the dict.
  \<^verbatim>\<open>trace\<close> lists the states a run of calls goes through.\<close>

datatype ('k, 'v) op =
    Write 'k 'v | Read 'k | Peek 'k | Delete 'k | Contains 'k | Resize int
  | Keys | Values | Items

fun exec :: "('k, 'v) op \<Rightarrow> ('k, 'v) lru_dict \<Rightarrow> ('k, 'v) lru_dict" where
  "exec (Write k v) s = snd (setitem s k v)"
| "exec (Read k) s = snd (getitem s k)"
| "exec (Peek k) s = snd (peek s k)"
| "exec (Delete k) s = snd (delitem s k)"
| "exec (Contains k) s = s"
| "exec (Resize n) s = snd (resize s n)"
| "exec Keys s = snd (keys s)"
| "exec Values s = snd (values_lru s)"
| "exec Items s = snd (items s)"

fun trace :: "('k, 'v) lru_dict \<Rightarrow> ('k, 'v) op list \<Rightarrow> ('k, 'v) lru_dict list" where
  "trace s [] = [s]"
| "trace s (c # cs) = s # trace (exec c s) cs"

section \<open>Properties\<close>

subsection \<open>What the list primitives compute\<close>

lemma list_index_absent: "k \<notin> set xs \<Longrightarrow> list_index xs k = Inl ValueError"
  by (induction xs) auto

lemma list_index_present:
  "k \<in> set xs \<Longrightarrow> \<exists>i. list_index xs k = Inr i \<and> i < length xs \<and> xs ! i = k
      \<and> take i xs @ drop (Suc i) xs = remove1 k xs"
  by (induction xs) auto

lemma make_key_newest_eq:
  "make_key_newest s k =
     (if k \<in> set (stack s) then (Inr (), s\<lparr>stack := remove1 k (stack s) @ [k]\<rparr>)
      else (Inl KeyError, s))"
proof (cases "k \<in> set (stack s)")
  case True
  from list_index_present [OF True] obtain i where
    "list_index (stack s) k = Inr i" "i < length (stack s)" "stack s ! i = k"
    "take i (stack s) @ drop (Suc i) (stack s) = remove1 k (stack s)"
    by blast
  with True show ?thesis
    by (simp add: make_key_newest_def list_pop_def)
next
  case False
  then show ?thesis
    by (simp add: make_key_newest_def list_index_absent)
qed

lemma delitem_eq:
  "delitem s k =
     (case data s k of
        None \<Rightarrow> (Inl KeyError, s)
      | Some _ \<Rightarrow>
          (if k \<in> set (stack s)
           then (Inr (), s\<lparr>data := (data s)(k := None), stack := remove1 k (stack s)\<rparr>)
           else (Inl ValueError, s\<lparr>data := (data s)(k := None)\<rparr>)))"
proof (cases "k \<in> set (stack s)")
  case True
  from list_index_present [OF True] obtain i where
    "list_index (stack s) k = Inr i" "i < length (stack s)" "stack s ! i = k"
    "take i (stack s) @ drop (Suc i) (stack s) = remove1 k (stack s)"
    by blast
  with True show ?thesis
    by (simp add: delitem_def list_pop_def split: option.splits)
next
  case False
  then show ?thesis
    by (simp add: delitem_def list_index_absent split: option.splits)
qed

lemma getitem_eq:
  "getitem s k =
     (if k \<in> set (stack s) then
        (case data s k of
           None \<Rightarrow> (Inl KeyError, s\<lparr>stack := remove1 k (stack s) @ [k]\<rparr>)
         | Some v \<Rightarrow> (Inr v, s\<lparr>stack := remove1 k (stack s) @ [k]\<rparr>))
      else (Inl KeyError, s))"
  by (simp add: getitem_def make_key_newest_eq split: option.splits)

lemma keys_from_eq: "keys_from s i = (Inr (drop i (stack s)), s)"
proof (induction s i rule: keys_from.induct)
  case (1 s i)
  show ?case
  proof (cases "i < length (stack s)")
    case True
    with 1 show ?thesis
      by (subst keys_from.simps) (simp add: Cons_nth_drop_Suc)
  next
    case False
    then show ?thesis by (subst keys_from.simps) simp
  qed
qed

lemma values_from_state: "snd (values_from s i) = s"
proof (induction s i rule: values_from.induct)
  case (1 s i)
  show ?case
  proof (cases "i < length (stack s)")
    case True
    show ?thesis
    proof (cases "data s (stack s ! i)")
      case None
      with True show ?thesis by (subst values_from.simps) (simp add: peek_def)
    next
      case (Some v)
      then have p: "peek s (stack s ! i) = (Inr v, s)" by (simp add: peek_def)
      from 1 [OF True p [symmetric] refl] have "snd (values_from s (Suc i)) = s" .
      with True p show ?thesis
        by (subst values_from.simps) (auto split: prod.splits sum.splits)
    qed
  next
    case False
    then show ?thesis by (subst values_from.simps) simp
  qed
qed

lemma values_from_ok:
  "set (stack s) \<subseteq> dom (data s) \<Longrightarrow>
   \<exists>vs. values_from s i = (Inr vs, s) \<and> map (data s) (drop i (stack s)) = map Some vs"
proof (induction s i rule: values_from.induct)
  case (1 s i)
  show ?case
  proof (cases "i < length (stack s)")
    case True
    with "1.prems" obtain v where v: "data s (stack s ! i) = Some v"
      by (meson domD nth_mem subsetD)
    then have p: "peek s (stack s ! i) = (Inr v, s)" by (simp add: peek_def)
    from "1.IH" [OF True p [symmetric] refl "1.prems"] obtain vs where
      vs: "values_from s (Suc i) = (Inr vs, s)"
          "map (data s) (drop (Suc i) (stack s)) = map Some vs"
      by blast
    have "values_from s i = (Inr (v # vs), s)"
      using True p vs(1) by (subst values_from.simps) simp
    moreover have "map (data s) (drop i (stack s)) = map Some (v # vs)"
      using True v vs(2) by (simp add: Cons_nth_drop_Suc [symmetric])
    ultimately show ?thesis by blast
  next
    case False
    then show ?thesis by (subst values_from.simps) simp
  qed
qed

lemma items_from_state: "snd (items_from s i) = s"
proof (induction s i rule: items_from.induct)
  case (1 s i)
  show ?case
  proof (cases "i < length (stack s)")
    case True
    show ?thesis
    proof (cases "data s (stack s ! i)")
      case None
      with True show ?thesis by (subst items_from.simps) (simp add: peek_def)
    next
      case (Some v)
      then have p: "peek s (stack s ! i) = (Inr v, s)" by (simp add: peek_def)
      from 1 [OF True p [symmetric] refl] have "snd (items_from s (Suc i)) = s" .
      with True p show ?thesis
        by (subst items_from.simps) (auto split: prod.splits sum.splits)
    qed
  next
    case False
    then show ?thesis by (subst items_from.simps) simp
  qed
qed

lemma items_from_ok:
  "set (stack s) \<subseteq> dom (data s) \<Longrightarrow>
   \<exists>vs. items_from s i = (Inr (zip (drop i (stack s)) vs), s)
      \<and> map (data s) (drop i (stack s)) = map Some vs"
proof (induction s i rule: items_from.induct)
  case (1 s i)
  show ?case
  proof (cases "i < length (stack s)")
    case True
    with "1.prems" obtain v where v: "data s (stack s ! i) = Some v"
      by (meson domD nth_mem subsetD)
    then have p: "peek s (stack s ! i) = (Inr v, s)" by (simp add: peek_def)
    from "1.IH" [OF True p [symmetric] refl "1.prems"] obtain vs where
      vs: "items_from s (Suc i) = (Inr (zip (drop (Suc i) (stack s)) vs), s)"
          "map (data s) (drop (Suc i) (stack s)) = map Some vs"
      by blast
    have "items_from s i = (Inr (zip (drop i (stack s)) (v # vs)), s)"
      using True p vs(1)
      by (subst items_from.simps) (simp add: Cons_nth_drop_Suc [symmetric])
    moreover have "map (data s) (drop i (stack s)) = map Some (v # vs)"
      using True v vs(2) by (simp add: Cons_nth_drop_Suc [symmetric])
    ultimately show ?thesis by blast
  next
    case False
    then show ?thesis by (subst items_from.simps) simp
  qed
qed

lemma del_keys_ok:
  "distinct ks \<Longrightarrow> set ks \<subseteq> dom d \<Longrightarrow> del_keys ks d = (None, d |` (- set ks))"
proof (induction ks arbitrary: d)
  case Nil
  then show ?case by simp
next
  case (Cons k ks)
  from Cons.prems obtain v where v: "d k = Some v" by auto
  have dist: "distinct ks" using Cons.prems by simp
  have sub: "set ks \<subseteq> dom (d(k := None))" using Cons.prems by auto
  have "del_keys ks (d(k := None)) = (None, (d(k := None)) |` (- set ks))"
    by (rule Cons.IH [OF dist sub])
  moreover have "(d(k := None)) |` (- set ks) = d |` (- set (k # ks))"
    by (auto simp: restrict_map_def fun_eq_iff)
  ultimately show ?case using v by simp
qed

lemma slice_bound_neg: "1 \<le> n \<Longrightarrow> slice_bound xs (- n) = length xs - nat n"
  by (auto simp: slice_bound_def)

lemma resize_eq:
  assumes "invar s" and "1 \<le> n"
  shows "resize s n =
     (Inr (),
      if len s > n then
        s\<lparr>size_lru := n,
          data := data s |` (- set (take (length (stack s) - nat n) (stack s))),
          stack := drop (length (stack s) - nat n) (stack s)\<rparr>
      else s\<lparr>size_lru := n\<rparr>)"
proof (cases "len s > n")
  case True
  let ?m = "length (stack s) - nat n"
  have d: "distinct (take ?m (stack s))" using assms(1) by (simp add: invar_def)
  have sub: "set (take ?m (stack s)) \<subseteq> dom (data s)"
    using assms(1) by (auto simp: invar_def dest: in_set_takeD)
  from del_keys_ok [OF d sub] True assms(2) show ?thesis
    by (simp add: resize_def len_def slice_to_def slice_from_def slice_bound_neg)
next
  case False
  with assms(2) show ?thesis by (simp add: resize_def len_def)
qed

lemma length_remove1_snoc: "k \<in> set xs \<Longrightarrow> length (remove1 k xs @ [k]) = length xs"
  using length_pos_if_in_set [of k xs] by (simp add: length_remove1)

lemma setitem_eq:
  assumes "invar s"
  shows "setitem s k v =
     (let ins = s\<lparr>stack := (if contains s k then remove1 k (stack s) else stack s) @ [k],
                  data := (data s)(k \<mapsto> v)\<rparr>
      in (Inr (),
          if len ins > size_lru ins
          then ins\<lparr>stack := tl (stack ins), data := (data ins)(hd (stack ins) := None)\<rparr>
          else ins))"
proof (cases "contains s k")
  case True
  then have mem: "k \<in> set (stack s)" using assms by (auto simp: invar_def contains_def)
  then have "length (remove1 k (stack s) @ [k]) = length (stack s)"
    by (rule length_remove1_snoc)
  with assms True mem show ?thesis
    by (simp add: setitem_def make_key_newest_eq invar_def len_def Let_def)
next
  case False
  show ?thesis
  proof (cases "len s + 1 > size_lru s")
    case over: True
    obtain k0 rest where st: "stack s @ [k] = k0 # rest" by (cases "stack s") auto
    have k0: "k0 \<in> set (stack s @ [k])" unfolding st by simp
    have "k0 \<in> dom ((data s)(k \<mapsto> v))"
      using k0 assms by (auto simp: invar_def)
    then obtain w where w: "((data s)(k \<mapsto> v)) k0 = Some w" by blast
    have r: "remove1 k0 (stack s @ [k]) = rest" unfolding st by simp
    from False over st w r k0 show ?thesis
      by (simp add: setitem_def len_def Let_def delitem_eq)
  next
    case under: False
    with False show ?thesis by (simp add: setitem_def len_def Let_def)
  qed
qed

lemma invar_setitem:
  assumes "invar s"
  shows "invar (snd (setitem s k v))"
proof (cases "contains s k")
  case True
  then have mem: "k \<in> set (stack s)" using assms by (auto simp: invar_def contains_def)
  then have l: "length (remove1 k (stack s) @ [k]) = length (stack s)"
    by (rule length_remove1_snoc)
  from assms True mem l show ?thesis
    by (auto simp: setitem_eq [OF assms] Let_def invar_def len_def contains_def)
next
  case False
  then have nm: "k \<notin> set (stack s)" using assms by (auto simp: invar_def contains_def)
  show ?thesis
  proof (cases "stack s")
    case Nil
    with assms False show ?thesis
      by (auto simp: setitem_eq [OF assms] Let_def invar_def len_def)
  next
    case (Cons k0 rest)
    with assms False nm show ?thesis
      by (auto simp: setitem_eq [OF assms] Let_def invar_def len_def)
  qed
qed

lemma invar_getitem: "invar s \<Longrightarrow> invar (snd (getitem s k))"
  using length_remove1_snoc [of k "stack s"]
  by (auto simp: getitem_eq invar_def len_def split: option.splits)

lemma invar_delitem: "invar s \<Longrightarrow> invar (snd (delitem s k))"
  by (auto simp: delitem_eq invar_def len_def length_remove1 split: option.splits)

lemma invar_resize:
  assumes "invar s"
  shows "invar (snd (resize s n))"
proof (cases "1 \<le> n")
  case True
  have "set (drop m (stack s)) = dom (data s |` (- set (take m (stack s))))" for m
  proof -
    have "set (stack s) = set (take m (stack s)) \<union> set (drop m (stack s))"
      by (metis append_take_drop_id set_append)
    moreover have "set (take m (stack s)) \<inter> set (drop m (stack s)) = {}"
      using assms by (metis append_take_drop_id distinct_append invar_def)
    ultimately show ?thesis using assms by (auto simp: invar_def)
  qed
  with assms True show ?thesis
    by (auto simp: resize_eq [OF assms True] invar_def len_def)
next
  case False
  with assms show ?thesis by (simp add: resize_def)
qed

subsection \<open>Every call keeps the invariant\<close>

lemma invar_update: "invar s \<Longrightarrow> invar (snd (update s kvs))"
proof (induction kvs arbitrary: s)
  case Nil
  then show ?case by simp
next
  case (Cons kv kvs)
  obtain k v where kv: "kv = (k, v)" by (cases kv)
  from Cons.prems have i1: "invar (snd (setitem s k v))" by (rule invar_setitem)
  obtain r s1 where r: "setitem s k v = (r, s1)" by (cases "setitem s k v")
  with i1 have i2: "invar s1" by simp
  show ?case
  proof (cases r)
    case (Inl e)
    with kv r i2 show ?thesis by simp
  next
    case (Inr u)
    with kv r Cons.IH [OF i2] show ?thesis by simp
  qed
qed

lemma invar_init: "init n existing = Inr s \<Longrightarrow> invar s"
proof -
  assume a: "init n existing = Inr s"
  then have n: "1 \<le> n" by (auto simp: init_def split: if_splits)
  let ?e = "\<lparr>size_lru = n, stack = [], data = Map.empty\<rparr> :: ('a, 'b) lru_dict"
  have e: "invar ?e" using n by (simp add: invar_def len_def)
  show ?thesis
  proof (cases existing)
    case None
    with a n e show ?thesis by (simp add: init_def)
  next
    case (Some kvs)
    from invar_update [OF e, of kvs] a n Some show ?thesis
      by (auto simp: init_def split: prod.splits sum.splits)
  qed
qed

lemma invar_exec: "invar s \<Longrightarrow> invar (exec c s)"
  by (cases c)
     (simp_all add: invar_setitem invar_getitem invar_delitem invar_resize peek_def
        keys_def keys_from_eq values_lru_def values_from_state items_def items_from_state
        split: option.splits)

lemma invar_trace: "invar s \<Longrightarrow> list_all invar (trace s cs)"
  by (induction cs arbitrary: s) (simp_all add: invar_exec)

lemma invar_card: "invar s \<Longrightarrow> card (dom (data s)) = length (stack s)"
  by (metis distinct_card invar_def)

text \<open>Conversely, construction can return every state that satisfies the invariant: the
  invariant describes the objects a caller can hold, no more.\<close>

lemma update_snoc:
  "update s (kvs @ [(k, v)]) =
     (case update s kvs of (Inl e, s1) \<Rightarrow> (Inl e, s1) | (Inr u, s1) \<Rightarrow> setitem s1 k v)"
proof (induction kvs arbitrary: s)
  case Nil
  show ?case by (cases "setitem s k v") (auto split: sum.splits)
next
  case (Cons kv kvs)
  obtain k' v' where kv: "kv = (k', v')" by (cases kv)
  show ?case
    by (cases "setitem s k' v'") (auto simp: kv Cons.IH split: sum.splits)
qed

lemma update_builds:
  assumes "distinct xs" and "int (length xs) \<le> n" and "1 \<le> n"
  shows "update \<lparr>size_lru = n, stack = [], data = Map.empty\<rparr> (map (\<lambda>k. (k, f k)) xs)
       = (Inr (), \<lparr>size_lru = n, stack = xs,
                   data = (\<lambda>k. if k \<in> set xs then Some (f k) else None)\<rparr>)"
  using assms
proof (induction xs rule: rev_induct)
  case Nil
  show ?case by simp
next
  case (snoc x xs)
  let ?s1 = "\<lparr>size_lru = n, stack = xs, data = (\<lambda>k. if k \<in> set xs then Some (f k) else None)\<rparr>"
  from snoc.prems have d: "distinct xs" and l: "int (length xs) \<le> n" and nx: "x \<notin> set xs"
    by simp_all
  have u: "update \<lparr>size_lru = n, stack = [], data = Map.empty\<rparr> (map (\<lambda>k. (k, f k)) xs)
     = (Inr (), ?s1)"
    by (rule snoc.IH [OF d l snoc.prems(3)])
  have i: "invar ?s1" using d l snoc.prems(3) by (auto simp: invar_def len_def dom_def)
  have "setitem ?s1 x (f x)
     = (Inr (), \<lparr>size_lru = n, stack = xs @ [x],
                 data = (\<lambda>k. if k \<in> set (xs @ [x]) then Some (f k) else None)\<rparr>)"
    using nx snoc.prems(2)
    by (auto simp: setitem_eq [OF i] Let_def contains_def len_def fun_eq_iff)
  with u show ?case by (simp add: update_snoc)
qed

lemma invar_constructible:
  assumes "invar s"
  shows "\<exists>kvs. init (size_lru s) (Some kvs) = Inr s"
proof -
  from assms have d: "distinct (stack s)" and l: "int (length (stack s)) \<le> size_lru s"
    and n: "1 \<le> size_lru s" and dm: "set (stack s) = dom (data s)"
    by (simp_all add: invar_def len_def)
  let ?f = "\<lambda>k. the (data s k)"
  have "(\<lambda>k. if k \<in> set (stack s) then Some (?f k) else None) = data s"
    using dm by (auto simp: fun_eq_iff)
  with update_builds [OF d l n, of ?f]
  have "update \<lparr>size_lru = size_lru s, stack = [], data = Map.empty\<rparr>
          (map (\<lambda>k. (k, ?f k)) (stack s))
        = (Inr (), \<lparr>size_lru = size_lru s, stack = stack s, data = data s\<rparr>)"
    by simp
  then have "init (size_lru s) (Some (map (\<lambda>k. (k, ?f k)) (stack s))) = Inr s"
    using n by (simp add: init_def)
  then show ?thesis by blast
qed

text \<open>
  Claim C1. Take any object that construction returned and any run of calls on it (write,
  read, peek, delete, contains, resize, the three traversals), failed calls included. In
  every state of the run the stack is free of duplicates and holds exactly the keys of the
  dict, the number of entries is at most the capacity, and the capacity is at least 1.
\<close>

theorem invariant_after_every_call:
  assumes "init n existing = Inr s0"
  shows "list_all (\<lambda>s. distinct (stack s) \<and> set (stack s) = dom (data s)
            \<and> card (dom (data s)) = length (stack s)
            \<and> int (card (dom (data s))) \<le> size_lru s \<and> 1 \<le> size_lru s)
          (trace s0 cs)"
proof -
  have "invar s0" using assms by (rule invar_init)
  then have "list_all invar (trace s0 cs)" by (rule invar_trace)
  then show ?thesis
    by (rule list.pred_mono_strong) (simp add: invar_card, simp add: invar_def len_def)
qed

text \<open>The definitions a concrete call unfolds to.\<close>

lemmas run_simps = init_def setitem_def getitem_def delitem_def make_key_newest_def
  list_pop_def contains_def len_def resize_def peek_def slice_to_def slice_from_def slice_bound_def
  Let_def

theorem invariant_after_every_call_witness:
  "init 2 (Some [(1::nat, 10::nat), (2, 20), (3, 30)])
     = Inr \<lparr>size_lru = 2, stack = [2, 3], data = [2 \<mapsto> 20, 3 \<mapsto> 30]\<rparr>
   \<and> list_all (\<lambda>s. distinct (stack s) \<and> set (stack s) = dom (data s)
            \<and> card (dom (data s)) = length (stack s)
            \<and> int (card (dom (data s))) \<le> size_lru s \<and> 1 \<le> size_lru s)
          (trace \<lparr>size_lru = 2, stack = [2::nat, 3], data = [2 \<mapsto> 20::nat, 3 \<mapsto> 30]\<rparr>
             [Read 2, Write 4 40, Delete 1, Resize 1, Values])"
proof -
  have i: "init 2 (Some [(1::nat, 10::nat), (2, 20), (3, 30)])
     = Inr \<lparr>size_lru = 2, stack = [2, 3], data = [2 \<mapsto> 20, 3 \<mapsto> 30]\<rparr>"
    by (simp add: run_simps fun_eq_iff)
  show ?thesis
    by (rule conjI [OF i invariant_after_every_call [OF i]])
qed

subsection \<open>Writing\<close>

lemma mru_eq: "mru s = (if stack s = [] then Inl IndexError else Inr (last (stack s)))"
  by (cases "stack s") (simp_all add: mru_def)

lemma mru_snoc: "stack s = xs @ [k] \<Longrightarrow> mru s = Inr k"
  by (simp add: mru_eq)

text \<open>
  Claim C2. On an object that satisfies the invariant, \<^verbatim>\<open>__setitem__\<close> returns without
  raising. The key is first made the newest: a key the dict holds is taken out of its
  place in the stack and appended, a new key is appended; the value is stored. If the
  stack is then longer than the capacity, the key at index 0 and its value are removed,
  once, and the stack is within the capacity again. Afterwards the written key is the
  most recently used one and holds the written value.
\<close>

theorem setitem_write:
  assumes "invar s"
  shows "setitem s k v =
     (let ins = s\<lparr>stack := (if contains s k then remove1 k (stack s) else stack s) @ [k],
                  data := (data s)(k \<mapsto> v)\<rparr>
      in (Inr (),
          if len ins > size_lru ins
          then ins\<lparr>stack := tl (stack ins), data := (data ins)(hd (stack ins) := None)\<rparr>
          else ins))
    \<and> mru (snd (setitem s k v)) = Inr k
    \<and> data (snd (setitem s k v)) k = Some v
    \<and> len (snd (setitem s k v)) \<le> size_lru s"
proof -
  note e = setitem_eq [OF assms, of k v]
  have i: "invar (snd (setitem s k v))" using assms by (rule invar_setitem)
  have sz: "size_lru (snd (setitem s k v)) = size_lru s"
    by (simp add: e Let_def)
  have l: "len (snd (setitem s k v)) \<le> size_lru s"
    using i sz by (simp add: invar_def)
  have one: "1 \<le> size_lru s" using assms by (simp add: invar_def)
  have m: "mru (snd (setitem s k v)) = Inr k \<and> data (snd (setitem s k v)) k = Some v"
  proof (cases "contains s k")
    case True
    then have "k \<in> set (stack s)" using assms by (auto simp: invar_def contains_def)
    then have "length (remove1 k (stack s) @ [k]) = length (stack s)"
      by (rule length_remove1_snoc)
    with True assms
    have "stack (snd (setitem s k v)) = remove1 k (stack s) @ [k]
        \<and> data (snd (setitem s k v)) k = Some v"
      by (simp add: e Let_def len_def invar_def)
    then show ?thesis by (simp add: mru_snoc)
  next
    case False
    then have nm: "k \<notin> set (stack s)" using assms by (auto simp: invar_def contains_def)
    show ?thesis
    proof (cases "stack s")
      case Nil
      with False one
      have "stack (snd (setitem s k v)) = [] @ [k] \<and> data (snd (setitem s k v)) k = Some v"
        by (simp add: e Let_def len_def)
      then show ?thesis by (simp only: mru_snoc simp_thms)
    next
      case (Cons k0 rest)
      with False nm
      have "(stack (snd (setitem s k v)) = rest @ [k] \<or> stack (snd (setitem s k v)) = stack s @ [k])
          \<and> data (snd (setitem s k v)) k = Some v"
        by (auto simp: e Let_def len_def)
      then show ?thesis by (auto simp: mru_snoc)
    qed
  qed
  from e m l show ?thesis by blast
qed

theorem setitem_write_witness:
  "invar \<lparr>size_lru = 2, stack = [1::nat, 2], data = [1 \<mapsto> 10::nat, 2 \<mapsto> 20]\<rparr>
   \<and> setitem \<lparr>size_lru = 2, stack = [1::nat, 2], data = [1 \<mapsto> 10::nat, 2 \<mapsto> 20]\<rparr> 3 30
       = (Inr (), \<lparr>size_lru = 2, stack = [2, 3], data = [2 \<mapsto> 20, 3 \<mapsto> 30]\<rparr>)
   \<and> setitem \<lparr>size_lru = 2, stack = [1::nat, 2], data = [1 \<mapsto> 10::nat, 2 \<mapsto> 20]\<rparr> 1 11
       = (Inr (), \<lparr>size_lru = 2, stack = [2, 1], data = [1 \<mapsto> 11, 2 \<mapsto> 20]\<rparr>)"
proof -
  have i: "invar \<lparr>size_lru = 2, stack = [1::nat, 2], data = [1 \<mapsto> 10::nat, 2 \<mapsto> 20]\<rparr>"
    by (auto simp: invar_def len_def)
  from i setitem_write [OF i, of 3 30] setitem_write [OF i, of 1 11] show ?thesis
    by (simp add: Let_def contains_def len_def fun_eq_iff)
qed

subsection \<open>Reading\<close>

lemma filter_absent: "k \<notin> set xs \<Longrightarrow> filter (\<lambda>x. x \<noteq> k) xs = xs"
  by (induction xs) auto

lemma remove1_filter_distinct: "distinct xs \<Longrightarrow> remove1 k xs = filter (\<lambda>x. x \<noteq> k) xs"
  by (induction xs) (auto simp: filter_absent)

text \<open>
  Claim C3. On an object that satisfies the invariant, \<^verbatim>\<open>__getitem__\<close> of a key the dict
  holds returns the value the dict holds for it. The key becomes the last element of the
  stack, the other keys keep their order, and the dict and the capacity stay as they
  were.
\<close>

theorem getitem_read:
  assumes "invar s" and "data s k = Some v"
  shows "getitem s k = (Inr v, s\<lparr>stack := filter (\<lambda>x. x \<noteq> k) (stack s) @ [k]\<rparr>)
    \<and> mru (snd (getitem s k)) = Inr k
    \<and> filter (\<lambda>x. x \<noteq> k) (stack (snd (getitem s k))) = filter (\<lambda>x. x \<noteq> k) (stack s)
    \<and> data (snd (getitem s k)) = data s
    \<and> size_lru (snd (getitem s k)) = size_lru s"
proof -
  have mem: "k \<in> set (stack s)" using assms by (auto simp: invar_def)
  have d: "distinct (stack s)" using assms(1) by (simp add: invar_def)
  have g: "getitem s k = (Inr v, s\<lparr>stack := filter (\<lambda>x. x \<noteq> k) (stack s) @ [k]\<rparr>)"
    using mem assms(2) by (simp add: getitem_eq remove1_filter_distinct [OF d])
  then show ?thesis by (simp add: mru_snoc)
qed

theorem getitem_read_witness:
  "invar \<lparr>size_lru = 3, stack = [1::nat, 2, 3], data = [1 \<mapsto> 10::nat, 2 \<mapsto> 20, 3 \<mapsto> 30]\<rparr>
   \<and> getitem \<lparr>size_lru = 3, stack = [1::nat, 2, 3], data = [1 \<mapsto> 10::nat, 2 \<mapsto> 20, 3 \<mapsto> 30]\<rparr> 2
       = (Inr 20, \<lparr>size_lru = 3, stack = [1, 3, 2], data = [1 \<mapsto> 10, 2 \<mapsto> 20, 3 \<mapsto> 30]\<rparr>)"
proof -
  have i: "invar \<lparr>size_lru = 3, stack = [1::nat, 2, 3], data = [1 \<mapsto> 10::nat, 2 \<mapsto> 20, 3 \<mapsto> 30]\<rparr>"
    by (auto simp: invar_def len_def)
  from i getitem_read [OF i, of 2 20] show ?thesis by simp
qed

text \<open>
  Claim C4. \<^verbatim>\<open>peek\<close> of a key the dict holds returns its value and leaves the object as
  it was: the stack (so the least and the most recently used key), the dict and the
  capacity.
\<close>

theorem peek_unchanged:
  assumes "data s k = Some v"
  shows "peek s k = (Inr v, s)
    \<and> lru (snd (peek s k)) = lru s \<and> mru (snd (peek s k)) = mru s
    \<and> stack (snd (peek s k)) = stack s \<and> data (snd (peek s k)) = data s
    \<and> size_lru (snd (peek s k)) = size_lru s"
  using assms by (simp add: peek_def)

theorem peek_unchanged_witness:
  "peek \<lparr>size_lru = 3, stack = [1::nat, 2, 3], data = [1 \<mapsto> 10::nat, 2 \<mapsto> 20, 3 \<mapsto> 30]\<rparr> 1
     = (Inr 10, \<lparr>size_lru = 3, stack = [1, 2, 3], data = [1 \<mapsto> 10, 2 \<mapsto> 20, 3 \<mapsto> 30]\<rparr>)
   \<and> lru \<lparr>size_lru = 3, stack = [1::nat, 2, 3], data = [1 \<mapsto> 10::nat, 2 \<mapsto> 20, 3 \<mapsto> 30]\<rparr> = Inr 1"
  using peek_unchanged [of "\<lparr>size_lru = 3, stack = [1::nat, 2, 3], data = [1 \<mapsto> 10::nat, 2 \<mapsto> 20, 3 \<mapsto> 30]\<rparr>" 1 10]
  by (simp add: lru_def)

subsection \<open>Resizing\<close>

text \<open>
  Claim C5. \<^verbatim>\<open>resize\<close> with a size below 1 raises ValueError and leaves the object as it
  was, and so does construction with such a size. With a size of at least 1, on an object
  that satisfies the invariant, it returns and sets the capacity; when the new capacity is
  below the number of entries, the stack loses its first (count - capacity) keys and keeps
  the rest in order, and the dict loses exactly those keys and keeps the values of the
  others.
\<close>

theorem resize_truncates:
  "(n < 1 \<longrightarrow> resize s n = (Inl ValueError, s) \<and> init n existing = Inl ValueError)
   \<and> (invar s \<and> 1 \<le> n \<longrightarrow>
        (\<exists>s'. resize s n = (Inr (), s') \<and> size_lru s' = n
           \<and> (if n < len s then
                 stack s' = drop (nat (len s - n)) (stack s)
                 \<and> data s' = data s |` (- set (take (nat (len s - n)) (stack s)))
                 \<and> data s' = data s |` set (stack s')
               else stack s' = stack s \<and> data s' = data s)))"
proof (rule conjI)
  show "n < 1 \<longrightarrow> resize s n = (Inl ValueError, s) \<and> init n existing = Inl ValueError"
    by (simp add: resize_def init_def)
next
  show "invar s \<and> 1 \<le> n \<longrightarrow>
        (\<exists>s'. resize s n = (Inr (), s') \<and> size_lru s' = n
           \<and> (if n < len s then
                 stack s' = drop (nat (len s - n)) (stack s)
                 \<and> data s' = data s |` (- set (take (nat (len s - n)) (stack s)))
                 \<and> data s' = data s |` set (stack s')
               else stack s' = stack s \<and> data s' = data s))"
  proof (rule impI)
  assume a: "invar s \<and> 1 \<le> n"
  then have i: "invar s" and n: "1 \<le> n" by simp_all
  have m: "nat (len s - n) = length (stack s) - nat n" using n by (simp add: len_def)
  let ?m = "length (stack s) - nat n"
  have "data s |` (- set (take ?m (stack s))) = data s |` set (drop ?m (stack s))"
  proof -
    have u: "set (stack s) = set (take ?m (stack s)) \<union> set (drop ?m (stack s))"
      by (metis append_take_drop_id set_append)
    have "set (take ?m (stack s)) \<inter> set (drop ?m (stack s)) = {}"
      using i by (metis append_take_drop_id distinct_append invar_def)
    moreover have "set (stack s) = dom (data s)" using i by (simp add: invar_def)
    ultimately show ?thesis using u
      by (auto simp: restrict_map_def fun_eq_iff)
  qed
  then show "\<exists>s'. resize s n = (Inr (), s') \<and> size_lru s' = n
           \<and> (if n < len s then
                 stack s' = drop (nat (len s - n)) (stack s)
                 \<and> data s' = data s |` (- set (take (nat (len s - n)) (stack s)))
                 \<and> data s' = data s |` set (stack s')
               else stack s' = stack s \<and> data s' = data s)"
    by (simp add: resize_eq [OF i n] m)
  qed
qed

theorem resize_truncates_witness:
  "invar \<lparr>size_lru = 4, stack = [1::nat, 2, 3, 4], data = [1 \<mapsto> 10::nat, 2 \<mapsto> 20, 3 \<mapsto> 30, 4 \<mapsto> 40]\<rparr>
   \<and> resize \<lparr>size_lru = 4, stack = [1::nat, 2, 3, 4], data = [1 \<mapsto> 10::nat, 2 \<mapsto> 20, 3 \<mapsto> 30, 4 \<mapsto> 40]\<rparr> 2
       = (Inr (), \<lparr>size_lru = 2, stack = [3, 4], data = [3 \<mapsto> 30, 4 \<mapsto> 40]\<rparr>)
   \<and> resize \<lparr>size_lru = 4, stack = [1::nat, 2, 3, 4], data = [1 \<mapsto> 10::nat, 2 \<mapsto> 20, 3 \<mapsto> 30, 4 \<mapsto> 40]\<rparr> 0
       = (Inl ValueError, \<lparr>size_lru = 4, stack = [1, 2, 3, 4], data = [1 \<mapsto> 10, 2 \<mapsto> 20, 3 \<mapsto> 30, 4 \<mapsto> 40]\<rparr>)
   \<and> init 0 (Some [(1::nat, 10::nat)]) = Inl ValueError"
proof -
  let ?s = "\<lparr>size_lru = 4, stack = [1::nat, 2, 3, 4], data = [1 \<mapsto> 10::nat, 2 \<mapsto> 20, 3 \<mapsto> 30, 4 \<mapsto> 40]\<rparr>"
  have i: "invar ?s" by (auto simp: invar_def len_def)
  from resize_truncates [of 2 ?s None] i
  obtain s' where s': "resize ?s 2 = (Inr (), s')" "size_lru s' = 2" "stack s' = [3, 4]"
      "data s' = data ?s |` (- {1, 2})"
    by (auto simp: len_def)
  have "data ?s |` (- {1, 2}) = [3 \<mapsto> 30, 4 \<mapsto> 40]"
    by (auto simp: restrict_map_def fun_eq_iff)
  with s' have "s' = \<lparr>size_lru = 2, stack = [3, 4], data = [3 \<mapsto> 30, 4 \<mapsto> 40]\<rparr>"
    by (cases s') simp
  with s'(1) i resize_truncates [of 0 ?s "Some [(1::nat, 10::nat)]"] show ?thesis
    by simp
qed

text \<open>
  Claim C10. \<^verbatim>\<open>resize\<close> with a size that is at least 1 and at least the number of
  entries returns and changes the capacity only: the stack and the dict are untouched.
\<close>

theorem resize_keeps_when_large:
  assumes "1 \<le> n" and "len s \<le> n"
  shows "resize s n = (Inr (), s\<lparr>size_lru := n\<rparr>)"
  using assms by (simp add: resize_def len_def)

theorem resize_keeps_when_large_witness:
  "resize \<lparr>size_lru = 3, stack = [1::nat, 2], data = [1 \<mapsto> 10::nat, 2 \<mapsto> 20]\<rparr> 2
     = (Inr (), \<lparr>size_lru = 2, stack = [1, 2], data = [1 \<mapsto> 10, 2 \<mapsto> 20]\<rparr>)"
  using resize_keeps_when_large
    [of 2 "\<lparr>size_lru = 3, stack = [1::nat, 2], data = [1 \<mapsto> 10::nat, 2 \<mapsto> 20]\<rparr>"]
  by (simp add: len_def)

subsection \<open>Traversal\<close>

text \<open>
  Claim C6. On an object that satisfies the invariant, running \<^verbatim>\<open>keys()\<close>,
  \<^verbatim>\<open>values()\<close> or \<^verbatim>\<open>items()\<close> to the end yields the keys of the stack from first to
  last, their values in the same order, and the pairs of both; each traversal leaves the
  object as it was, so the most recently used key is the same before and after.
\<close>

theorem traversal_in_recency_order:
  assumes "invar s"
  shows "\<exists>vs. map (data s) (stack s) = map Some vs
     \<and> keys s = (Inr (stack s), s)
     \<and> values_lru s = (Inr vs, s)
     \<and> items s = (Inr (zip (stack s) vs), s)
     \<and> mru (snd (keys s)) = mru s \<and> mru (snd (values_lru s)) = mru s
     \<and> mru (snd (items s)) = mru s"
proof -
  have sub: "set (stack s) \<subseteq> dom (data s)" using assms by (simp add: invar_def)
  from values_from_ok [OF sub, of 0] obtain vs where
    vs: "values_from s 0 = (Inr vs, s)" "map (data s) (stack s) = map Some vs"
    by auto
  from items_from_ok [OF sub, of 0] obtain ws where
    ws: "items_from s 0 = (Inr (zip (stack s) ws), s)" "map (data s) (stack s) = map Some ws"
    by auto
  from vs(2) ws(2) have "map Some ws = map Some vs" by simp
  then have "ws = vs" by (simp add: inj_map_eq_map)
  with vs ws show ?thesis
    by (simp add: keys_def keys_from_eq values_lru_def items_def)
qed

theorem traversal_in_recency_order_witness:
  "invar \<lparr>size_lru = 3, stack = [2::nat, 3, 1], data = [1 \<mapsto> 10::nat, 2 \<mapsto> 20, 3 \<mapsto> 30]\<rparr>
   \<and> values_lru \<lparr>size_lru = 3, stack = [2::nat, 3, 1], data = [1 \<mapsto> 10::nat, 2 \<mapsto> 20, 3 \<mapsto> 30]\<rparr>
       = (Inr [20, 30, 10],
          \<lparr>size_lru = 3, stack = [2, 3, 1], data = [1 \<mapsto> 10, 2 \<mapsto> 20, 3 \<mapsto> 30]\<rparr>)
   \<and> items \<lparr>size_lru = 3, stack = [2::nat, 3, 1], data = [1 \<mapsto> 10::nat, 2 \<mapsto> 20, 3 \<mapsto> 30]\<rparr>
       = (Inr [(2, 20), (3, 30), (1, 10)],
          \<lparr>size_lru = 3, stack = [2, 3, 1], data = [1 \<mapsto> 10, 2 \<mapsto> 20, 3 \<mapsto> 30]\<rparr>)
   \<and> keys \<lparr>size_lru = 3, stack = [2::nat, 3, 1], data = [1 \<mapsto> 10::nat, 2 \<mapsto> 20, 3 \<mapsto> 30]\<rparr>
       = (Inr [2, 3, 1],
          \<lparr>size_lru = 3, stack = [2, 3, 1], data = [1 \<mapsto> 10, 2 \<mapsto> 20, 3 \<mapsto> 30]\<rparr>)"
proof -
  let ?s = "\<lparr>size_lru = 3, stack = [2::nat, 3, 1], data = [1 \<mapsto> 10::nat, 2 \<mapsto> 20, 3 \<mapsto> 30]\<rparr>"
  have i: "invar ?s" by (auto simp: invar_def len_def)
  from traversal_in_recency_order [OF i] obtain vs where
    vs: "map (data ?s) (stack ?s) = map Some vs" "keys ?s = (Inr (stack ?s), ?s)"
        "values_lru ?s = (Inr vs, ?s)" "items ?s = (Inr (zip (stack ?s) vs), ?s)"
    by blast
  from vs(1) have "map Some vs = map Some [20, 30, 10]" by simp
  then have "vs = [20, 30, 10]" by (simp only: inj_map_eq_map inj_Some)
  with i vs show ?thesis by simp
qed

subsection \<open>Failures\<close>

text \<open>
  Claim C7. On an object that satisfies the invariant, \<^verbatim>\<open>__getitem__\<close>, \<^verbatim>\<open>peek\<close> and
  \<^verbatim>\<open>__delitem__\<close> return for a key the dict holds; for a key it does not hold, each
  raises KeyError and leaves the object exactly as it was.
\<close>

theorem key_error_iff_absent:
  assumes "invar s"
  shows "(contains s k \<longrightarrow>
            (\<exists>v s'. getitem s k = (Inr v, s')) \<and> (\<exists>v. peek s k = (Inr v, s))
            \<and> (\<exists>s'. delitem s k = (Inr (), s')))
       \<and> (\<not> contains s k \<longrightarrow>
            getitem s k = (Inl KeyError, s) \<and> peek s k = (Inl KeyError, s)
            \<and> delitem s k = (Inl KeyError, s))"
  using assms
  by (auto simp: invar_def contains_def getitem_eq peek_def delitem_eq split: option.splits)

theorem key_error_iff_absent_witness:
  "invar \<lparr>size_lru = 3, stack = [1::nat, 2, 3], data = [1 \<mapsto> 10::nat, 2 \<mapsto> 20, 3 \<mapsto> 30]\<rparr>
   \<and> getitem \<lparr>size_lru = 3, stack = [1::nat, 2, 3], data = [1 \<mapsto> 10::nat, 2 \<mapsto> 20, 3 \<mapsto> 30]\<rparr> 5
       = (Inl KeyError, \<lparr>size_lru = 3, stack = [1, 2, 3], data = [1 \<mapsto> 10, 2 \<mapsto> 20, 3 \<mapsto> 30]\<rparr>)
   \<and> peek \<lparr>size_lru = 3, stack = [1::nat, 2, 3], data = [1 \<mapsto> 10::nat, 2 \<mapsto> 20, 3 \<mapsto> 30]\<rparr> 5
       = (Inl KeyError, \<lparr>size_lru = 3, stack = [1, 2, 3], data = [1 \<mapsto> 10, 2 \<mapsto> 20, 3 \<mapsto> 30]\<rparr>)
   \<and> delitem \<lparr>size_lru = 3, stack = [1::nat, 2, 3], data = [1 \<mapsto> 10::nat, 2 \<mapsto> 20, 3 \<mapsto> 30]\<rparr> 5
       = (Inl KeyError, \<lparr>size_lru = 3, stack = [1, 2, 3], data = [1 \<mapsto> 10, 2 \<mapsto> 20, 3 \<mapsto> 30]\<rparr>)
   \<and> fst (delitem \<lparr>size_lru = 3, stack = [1::nat, 2, 3], data = [1 \<mapsto> 10::nat, 2 \<mapsto> 20, 3 \<mapsto> 30]\<rparr> 2)
       = Inr ()"
proof -
  let ?s = "\<lparr>size_lru = 3, stack = [1::nat, 2, 3], data = [1 \<mapsto> 10::nat, 2 \<mapsto> 20, 3 \<mapsto> 30]\<rparr>"
  have i: "invar ?s" by (auto simp: invar_def len_def)
  from i key_error_iff_absent [OF i, of 5] key_error_iff_absent [OF i, of 2] show ?thesis
    by (auto simp: contains_def)
qed

text \<open>
  Claim C9. On an object with no entries \<^verbatim>\<open>lru\<close> and \<^verbatim>\<open>mru\<close> both raise IndexError.
  Deleting the only key of a one-entry object returns and leaves such an object: the stack
  and the dict are empty, and both accessors raise IndexError.
\<close>

theorem empty_store_accessors:
  "(len s = 0 \<longrightarrow> lru s = Inl IndexError \<and> mru s = Inl IndexError)
   \<and> (invar s \<and> stack s = [k] \<longrightarrow>
        (\<exists>s'. delitem s k = (Inr (), s') \<and> len s' = 0 \<and> data s' = Map.empty
           \<and> lru s' = Inl IndexError \<and> mru s' = Inl IndexError))"
proof (rule conjI)
  show "len s = 0 \<longrightarrow> lru s = Inl IndexError \<and> mru s = Inl IndexError"
    by (simp add: len_def lru_def mru_def)
next
  show "invar s \<and> stack s = [k] \<longrightarrow>
        (\<exists>s'. delitem s k = (Inr (), s') \<and> len s' = 0 \<and> data s' = Map.empty
           \<and> lru s' = Inl IndexError \<and> mru s' = Inl IndexError)"
  proof (rule impI)
  assume a: "invar s \<and> stack s = [k]"
  then have i: "invar s" and st: "stack s = [k]" by simp_all
  from i have "dom (data s) = set (stack s)" by (simp add: invar_def)
  also have "\<dots> = {k}" using st by simp
  finally have dm: "dom (data s) = {k}" .
  then obtain v where v: "data s k = Some v" by blast
  have "(data s)(k := None) = Map.empty"
  proof
    fix x show "((data s)(k := None)) x = None" using dm by (cases "x = k") auto
  qed
  with a v show "\<exists>s'. delitem s k = (Inr (), s') \<and> len s' = 0 \<and> data s' = Map.empty
           \<and> lru s' = Inl IndexError \<and> mru s' = Inl IndexError"
    by (simp add: delitem_eq len_def lru_def mru_def)
  qed
qed

theorem empty_store_accessors_witness:
  "invar \<lparr>size_lru = 2, stack = [7::nat], data = [7 \<mapsto> 70::nat]\<rparr>
   \<and> delitem \<lparr>size_lru = 2, stack = [7::nat], data = [7 \<mapsto> 70::nat]\<rparr> 7
       = (Inr (), \<lparr>size_lru = 2, stack = [], data = Map.empty\<rparr>)
   \<and> lru \<lparr>size_lru = 2, stack = [] :: nat list, data = Map.empty :: nat \<rightharpoonup> nat\<rparr> = Inl IndexError
   \<and> mru \<lparr>size_lru = 2, stack = [] :: nat list, data = Map.empty :: nat \<rightharpoonup> nat\<rparr> = Inl IndexError"
proof -
  let ?s = "\<lparr>size_lru = 2, stack = [7::nat], data = [7 \<mapsto> 70::nat]\<rparr>"
  let ?e = "\<lparr>size_lru = 2, stack = [] :: nat list, data = Map.empty :: nat \<rightharpoonup> nat\<rparr>"
  have i: "invar ?s" by (auto simp: invar_def len_def)
  have d: "delitem ?s 7 = (Inr (), ?e)" by (simp add: delitem_eq)
  from empty_store_accessors [of ?e 7] have "lru ?e = Inl IndexError \<and> mru ?e = Inl IndexError"
    by (simp add: len_def)
  with i d empty_store_accessors [of ?s 7] show ?thesis by simp
qed

subsection \<open>Equality\<close>

lemma peek_held: "data s k = Some v \<Longrightarrow> fst (peek s k) = Inr v"
  by (simp add: peek_def)

lemma all_zip_items_eq:
  assumes "set (stack s) \<subseteq> dom (data s)" and "set (stack t) \<subseteq> dom (data t)"
  shows "all_zip_items s t i =
     Inr (\<forall>j. i \<le> j \<and> j < length (stack s) \<and> j < length (stack t) \<longrightarrow>
            stack s ! j = stack t ! j \<and> data s (stack s ! j) = data t (stack t ! j))"
  using assms
proof (induction s t i rule: all_zip_items.induct)
  case (1 s t i)
  let ?Q = "\<lambda>i. \<forall>j. i \<le> j \<and> j < length (stack s) \<and> j < length (stack t) \<longrightarrow>
            stack s ! j = stack t ! j \<and> data s (stack s ! j) = data t (stack t ! j)"
  show ?case
  proof (cases "i < length (stack s) \<and> i < length (stack t)")
    case False
    then have q: "?Q i \<longleftrightarrow> True" by auto
    have az: "all_zip_items s t i = Inr True"
    proof (cases "i < length (stack s)")
      case True
      with "1.prems"(1) obtain v where v: "data s (stack s ! i) = Some v"
        by (meson domD nth_mem subsetD)
      with True False show ?thesis
        by (subst all_zip_items.simps) (simp add: peek_held)
    next
      case False
      then show ?thesis by (subst all_zip_items.simps) simp
    qed
    show ?thesis by (simp only: az q)
  next
    case True
    then have lt_s: "i < length (stack s)" and lt_t: "i < length (stack t)" by simp_all
    from lt_s "1.prems"(1) obtain v where v: "data s (stack s ! i) = Some v"
      by (meson domD nth_mem subsetD)
    from lt_t "1.prems"(2) obtain w where w: "data t (stack t ! i) = Some w"
      by (meson domD nth_mem subsetD)
    show ?thesis
    proof (cases "(stack s ! i, v) = (stack t ! i, w)")
      case same: True
      have ih: "all_zip_items s t (Suc i) = Inr (?Q (Suc i))"
        using "1.IH" [OF lt_s peek_held [OF v] lt_t peek_held [OF w] same "1.prems"] .
      have az: "all_zip_items s t i = all_zip_items s t (Suc i)"
        using lt_s lt_t v w same by (subst all_zip_items.simps) (simp add: peek_held)
      have q: "?Q i \<longleftrightarrow> ?Q (Suc i)"
      proof
        assume "?Q i" then show "?Q (Suc i)" using Suc_leD by blast
      next
        assume q: "?Q (Suc i)"
        show "?Q i"
        proof (intro allI impI)
          fix j assume j: "i \<le> j \<and> j < length (stack s) \<and> j < length (stack t)"
          show "stack s ! j = stack t ! j \<and> data s (stack s ! j) = data t (stack t ! j)"
          proof (cases "j = i")
            case True
            with same v w show ?thesis by simp
          next
            case False
            with j have "Suc i \<le> j" by simp
            with q j show ?thesis by blast
          qed
        qed
      qed
      show ?thesis by (simp only: az ih q)
    next
      case diff: False
      have az: "all_zip_items s t i = Inr False"
        using lt_s lt_t v w diff by (subst all_zip_items.simps) (auto simp: peek_held)
      have "\<not> ?Q i"
      proof
        assume "?Q i"
        with lt_s lt_t have "stack s ! i = stack t ! i \<and> data s (stack s ! i) = data t (stack t ! i)"
          by blast
        with v w diff show False by auto
      qed
      then have q: "?Q i \<longleftrightarrow> False" by (rule Eq_FalseI [THEN meta_eq_to_obj_eq])
      show ?thesis by (simp only: az q)
    qed
  qed
qed

lemma zip_items_pairwise:
  assumes "map ds xs = map Some vs" and "map dt ys = map Some ws"
  shows "(\<forall>p \<in> set (zip (zip xs vs) (zip ys ws)). fst p = snd p) \<longleftrightarrow>
         (\<forall>j. j < length xs \<and> j < length ys \<longrightarrow> xs ! j = ys ! j \<and> ds (xs ! j) = dt (ys ! j))"
proof -
  have lx: "length vs = length xs" using assms(1) by (metis length_map)
  have ly: "length ws = length ys" using assms(2) by (metis length_map)
  have vx: "ds (xs ! j) = Some (vs ! j)" if "j < length xs" for j
    using that assms(1) lx by (metis nth_map)
  have wy: "dt (ys ! j) = Some (ws ! j)" if "j < length ys" for j
    using that assms(2) ly by (metis nth_map)
  have nx: "zip xs vs ! j = (xs ! j, vs ! j)" if "j < length xs" for j
    using that lx by simp
  have ny: "zip ys ws ! j = (ys ! j, ws ! j)" if "j < length ys" for j
    using that ly by simp
  show ?thesis
  proof
    assume a: "\<forall>p \<in> set (zip (zip xs vs) (zip ys ws)). fst p = snd p"
    show "\<forall>j. j < length xs \<and> j < length ys \<longrightarrow> xs ! j = ys ! j \<and> ds (xs ! j) = dt (ys ! j)"
    proof (intro allI impI)
      fix j assume j: "j < length xs \<and> j < length ys"
      then have "j < length (zip (zip xs vs) (zip ys ws))" using lx ly by simp
      then have "zip (zip xs vs) (zip ys ws) ! j \<in> set (zip (zip xs vs) (zip ys ws))"
        by (rule nth_mem)
      with a have "fst (zip (zip xs vs) (zip ys ws) ! j) = snd (zip (zip xs vs) (zip ys ws) ! j)"
        by blast
      then have "(xs ! j, vs ! j) = (ys ! j, ws ! j)" using j lx ly by simp
      then show "xs ! j = ys ! j \<and> ds (xs ! j) = dt (ys ! j)"
        using j vx [of j] wy [of j] by simp
    qed
  next
    assume b: "\<forall>j. j < length xs \<and> j < length ys \<longrightarrow> xs ! j = ys ! j \<and> ds (xs ! j) = dt (ys ! j)"
    show "\<forall>p \<in> set (zip (zip xs vs) (zip ys ws)). fst p = snd p"
    proof
      fix p assume "p \<in> set (zip (zip xs vs) (zip ys ws))"
      then obtain j where j: "j < length (zip (zip xs vs) (zip ys ws))"
          "p = zip (zip xs vs) (zip ys ws) ! j"
        by (metis in_set_conv_nth)
      from j(1) have jx: "j < length xs" and jy: "j < length ys" using lx ly by simp_all
      from b jx jy have "xs ! j = ys ! j" "ds (xs ! j) = dt (ys ! j)" by blast+
      with vx [OF jx] wy [OF jy] have "(xs ! j, vs ! j) = (ys ! j, ws ! j)" by simp
      with j jx jy lx ly show "fst p = snd p" by simp
    qed
  qed
qed

text \<open>
  Claim C8. For two objects that satisfy the invariant \<^verbatim>\<open>__eq__\<close> returns, and it returns
  True exactly when the capacities are equal, the numbers of entries are equal and the
  items of both, walked together in stack order, are equal pair by pair; that is, when the
  capacities and the item sequences are equal. \<^verbatim>\<open>__ne__\<close> returns the negation. Two
  objects with the same dict and different stacks are not equal.
\<close>

theorem eq_compares_in_order:
  assumes "invar s" and "invar t"
  shows "\<exists>xs ys. items s = (Inr xs, s) \<and> items t = (Inr ys, t)
     \<and> eq s t = Inr (size_lru s = size_lru t \<and> filled s = filled t
                      \<and> (\<forall>p \<in> set (zip xs ys). fst p = snd p))
     \<and> ne s t = Inr (\<not> (size_lru s = size_lru t \<and> filled s = filled t
                      \<and> (\<forall>p \<in> set (zip xs ys). fst p = snd p)))
     \<and> (eq s t = Inr True \<longleftrightarrow> size_lru s = size_lru t \<and> xs = ys)
     \<and> (data s = data t \<and> stack s \<noteq> stack t \<longrightarrow> eq s t = Inr False)"
proof -
  have ss: "set (stack s) \<subseteq> dom (data s)" using assms(1) by (simp add: invar_def)
  have st: "set (stack t) \<subseteq> dom (data t)" using assms(2) by (simp add: invar_def)
  from items_from_ok [OF ss, of 0] obtain vs where
    vs: "items s = (Inr (zip (stack s) vs), s)" "map (data s) (stack s) = map Some vs"
    by (auto simp: items_def)
  from items_from_ok [OF st, of 0] obtain ws where
    ws: "items t = (Inr (zip (stack t) ws), t)" "map (data t) (stack t) = map Some ws"
    by (auto simp: items_def)
  let ?xs = "zip (stack s) vs" and ?ys = "zip (stack t) ws"
  let ?P = "\<forall>p \<in> set (zip ?xs ?ys). fst p = snd p"
  let ?E = "size_lru s = size_lru t \<and> filled s = filled t \<and> ?P"
  have lv: "length vs = length (stack s)" using vs(2) by (metis length_map)
  have lw: "length ws = length (stack t)" using ws(2) by (metis length_map)
  have walk: "all_zip_items s t 0 = Inr ?P"
    by (simp add: all_zip_items_eq [OF ss st] zip_items_pairwise [OF vs(2) ws(2)])
  have e: "eq s t = Inr ?E"
    by (simp add: eq_def walk)
  have n: "ne s t = Inr (\<not> ?E)"
    by (simp add: ne_def e)
  have same: "?E \<longleftrightarrow> size_lru s = size_lru t \<and> ?xs = ?ys"
  proof -
    have "length ?xs = length (stack s)" "length ?ys = length (stack t)"
      using lv lw by simp_all
    then have "?xs = ?ys \<longleftrightarrow> filled s = filled t \<and> ?P"
      by (auto simp: list_eq_iff_zip_eq filled_def len_def)
    then show ?thesis by blast
  qed
  have order: "eq s t = Inr False" if d: "data s = data t" and o: "stack s \<noteq> stack t"
  proof -
    have "?xs \<noteq> ?ys"
    proof
      assume "?xs = ?ys"
      then have "map fst ?xs = map fst ?ys" by simp
      with lv lw o show False by simp
    qed
    with same e show ?thesis by simp
  qed
  from vs(1) ws(1) e n same order show ?thesis
    by (intro exI [of _ ?xs] exI [of _ ?ys]) simp
qed

theorem eq_compares_in_order_witness:
  "invar \<lparr>size_lru = 2, stack = [1::nat, 2], data = [1 \<mapsto> 10::nat, 2 \<mapsto> 20]\<rparr>
   \<and> invar \<lparr>size_lru = 2, stack = [2::nat, 1], data = [1 \<mapsto> 10::nat, 2 \<mapsto> 20]\<rparr>
   \<and> eq \<lparr>size_lru = 2, stack = [1::nat, 2], data = [1 \<mapsto> 10::nat, 2 \<mapsto> 20]\<rparr>
        \<lparr>size_lru = 2, stack = [2::nat, 1], data = [1 \<mapsto> 10::nat, 2 \<mapsto> 20]\<rparr> = Inr False
   \<and> eq \<lparr>size_lru = 2, stack = [1::nat, 2], data = [1 \<mapsto> 10::nat, 2 \<mapsto> 20]\<rparr>
        \<lparr>size_lru = 2, stack = [1::nat, 2], data = [1 \<mapsto> 10::nat, 2 \<mapsto> 20]\<rparr> = Inr True"
proof -
  let ?s = "\<lparr>size_lru = 2, stack = [1::nat, 2], data = [1 \<mapsto> 10::nat, 2 \<mapsto> 20]\<rparr>"
  let ?t = "\<lparr>size_lru = 2, stack = [2::nat, 1], data = [1 \<mapsto> 10::nat, 2 \<mapsto> 20]\<rparr>"
  have i: "invar ?s" by (auto simp: invar_def len_def)
  have j: "invar ?t" by (auto simp: invar_def len_def)
  from eq_compares_in_order [OF i j]
  have "data ?s = data ?t \<and> stack ?s \<noteq> stack ?t \<longrightarrow> eq ?s ?t = Inr False" by blast
  then have "eq ?s ?t = Inr False" by simp
  moreover have "eq ?s ?s = Inr True"
  proof -
    from eq_compares_in_order [OF i i] obtain xs ys where
      x: "items ?s = (Inr xs, ?s)" and y: "items ?s = (Inr ys, ?s)"
      and e: "eq ?s ?s = Inr True \<longleftrightarrow> size_lru ?s = size_lru ?s \<and> xs = ys"
      by blast
    from x y have "xs = ys" by simp
    with e show ?thesis by simp
  qed
  ultimately show ?thesis using i j by simp
qed

end
